theory Spec2Isabelle
  imports Main
begin

section \<open>Dates of the host language\<close>

text \<open>
  A JavaScript \<^verbatim>\<open>Date\<close> holds a time value in milliseconds, or \<^verbatim>\<open>NaN\<close>
  (an "Invalid Date"). The host keeps no time value of more than 8.64e15 ms on
  either side of 1970: every date that it builds passes \<^verbatim>\<open>TimeClip\<close>, which
  gives an Invalid Date beyond that. So \<open>TimeValue t\<close> with a larger \<open>t\<close> is no
  date of the host; \<open>isValid\<close> below is false on it, as on \<open>InvalidDate\<close>.
  The calendar works on local dates only: the model takes local time to be UTC
  (no offset and no daylight-saving jumps).
\<close>

datatype Date = InvalidDate | TimeValue int

definition msPerDay :: int where
  "msPerDay = 86400000"

definition maxTime :: int where
  "maxTime = 8640000000000000"

definition TimeClip :: "int \<Rightarrow> Date" where
  "TimeClip t = (if \<bar>t\<bar> \<le> maxTime then TimeValue t else InvalidDate)"

subsection \<open>Day number and time within day (ECMAScript abstract operations)\<close>

definition Day :: "int \<Rightarrow> int" where
  "Day t = t div msPerDay"

definition TimeWithinDay :: "int \<Rightarrow> int" where
  "TimeWithinDay t = t mod msPerDay"

definition DaysInYear :: "int \<Rightarrow> int" where
  "DaysInYear y =
     (if y mod 4 \<noteq> 0 then 365
      else if y mod 100 \<noteq> 0 then 366
      else if y mod 400 \<noteq> 0 then 365
      else 366)"

definition InLeapYear :: "int \<Rightarrow> int" where
  "InLeapYear y = (if DaysInYear y = 366 then 1 else 0)"

definition DayFromYear :: "int \<Rightarrow> int" where
  "DayFromYear y =
     365 * (y - 1970) + (y - 1969) div 4 - (y - 1901) div 100 + (y - 1601) div 400"

text \<open>
  The language defines the year of a day as the largest \<open>y\<close> with
  \<open>DayFromYear y \<le> d\<close>. It is computed from an estimate that is at most one
  year too high (lemma \<open>YearFromDay_bounds\<close> below shows it is that year).
\<close>

definition YearFromDay :: "int \<Rightarrow> int" where
  "YearFromDay d =
     (let y0 = 1970 + (400 * d + 506) div 146097
      in if DayFromYear y0 \<le> d then y0 else y0 - 1)"

definition YearFromTime :: "int \<Rightarrow> int" where
  "YearFromTime t = YearFromDay (Day t)"

definition DayWithinYear :: "int \<Rightarrow> int" where
  "DayWithinYear t = Day t - DayFromYear (YearFromTime t)"

text \<open>Months are numbered from 0 (January) to 11, as in the host language.\<close>

definition MonthStart :: "int \<Rightarrow> int \<Rightarrow> int" where
  "MonthStart leap m =
     (if m = 0 then 0
      else if m = 1 then 31
      else if m = 2 then 59 + leap
      else if m = 3 then 90 + leap
      else if m = 4 then 120 + leap
      else if m = 5 then 151 + leap
      else if m = 6 then 181 + leap
      else if m = 7 then 212 + leap
      else if m = 8 then 243 + leap
      else if m = 9 then 273 + leap
      else if m = 10 then 304 + leap
      else if m = 11 then 334 + leap
      else 365 + leap)"

definition MonthFromDay :: "int \<Rightarrow> int \<Rightarrow> int" where
  "MonthFromDay leap d =
     (if d < 31 then 0
      else if d < 59 + leap then 1
      else if d < 90 + leap then 2
      else if d < 120 + leap then 3
      else if d < 151 + leap then 4
      else if d < 181 + leap then 5
      else if d < 212 + leap then 6
      else if d < 243 + leap then 7
      else if d < 273 + leap then 8
      else if d < 304 + leap then 9
      else if d < 334 + leap then 10
      else 11)"

definition DaysInMonth :: "int \<Rightarrow> int \<Rightarrow> int" where
  "DaysInMonth y m =
     (if m = 1 then 28 + InLeapYear y
      else if m = 3 \<or> m = 5 \<or> m = 8 \<or> m = 10 then 30
      else 31)"

definition MonthFromTime :: "int \<Rightarrow> int" where
  "MonthFromTime t = MonthFromDay (InLeapYear (YearFromTime t)) (DayWithinYear t)"

definition DateFromTime :: "int \<Rightarrow> int" where
  "DateFromTime t =
     DayWithinYear t - MonthStart (InLeapYear (YearFromTime t)) (MonthFromTime t) + 1"

definition MakeDay :: "int \<Rightarrow> int \<Rightarrow> int \<Rightarrow> int" where
  "MakeDay year month dt =
     (let ym = year + month div 12; mn = month mod 12
      in DayFromYear ym + MonthStart (InLeapYear ym) mn + dt - 1)"

definition MakeDate :: "int \<Rightarrow> int \<Rightarrow> int" where
  "MakeDate day time = day * msPerDay + time"

subsection \<open>Methods of \<^verbatim>\<open>Date\<close> used by the date library\<close>

text \<open>
  Each setter is applied to a fresh copy, so it is a function on time values.
  These are the time values before \<^verbatim>\<open>TimeClip\<close>, which the callers below apply.
\<close>

definition setDate :: "int \<Rightarrow> int \<Rightarrow> int" where
  "setDate t dt = MakeDate (MakeDay (YearFromTime t) (MonthFromTime t) dt) (TimeWithinDay t)"

definition setMonth :: "int \<Rightarrow> int \<Rightarrow> int \<Rightarrow> int" where
  "setMonth t month dt = MakeDate (MakeDay (YearFromTime t) month dt) (TimeWithinDay t)"

definition setFullYear :: "int \<Rightarrow> int \<Rightarrow> int \<Rightarrow> int \<Rightarrow> int" where
  "setFullYear t year month dt = MakeDate (MakeDay year month dt) (TimeWithinDay t)"

definition setHours0 :: "int \<Rightarrow> int" where
  "setHours0 t = MakeDate (Day t) 0"

text \<open>The comparisons \<^verbatim>\<open><\<close> and \<^verbatim>\<open><=\<close> on dates compare time values and are
  false as soon as one side is \<^verbatim>\<open>NaN\<close>.\<close>

fun date_lt :: "Date \<Rightarrow> Date \<Rightarrow> bool" where
  "date_lt (TimeValue a) (TimeValue b) = (a < b)"
| "date_lt _ _ = False"

fun date_le :: "Date \<Rightarrow> Date \<Rightarrow> bool" where
  "date_le (TimeValue a) (TimeValue b) = (a \<le> b)"
| "date_le _ _ = False"

subsection \<open>The date library (date-fns)\<close>

fun isValid :: "Date \<Rightarrow> bool" where
  "isValid InvalidDate = False"
| "isValid (TimeValue t) = (\<bar>t\<bar> \<le> maxTime)"

fun startOfDay :: "Date \<Rightarrow> Date" where
  "startOfDay InvalidDate = InvalidDate"
| "startOfDay (TimeValue t) = TimeClip (setHours0 t)"

text \<open>\<^verbatim>\<open>+startOfDay(a) === +startOfDay(b)\<close>: never true on an invalid date.\<close>

definition isSameDay :: "Date \<Rightarrow> Date \<Rightarrow> bool" where
  "isSameDay a b =
     (case (startOfDay a, startOfDay b) of
        (TimeValue x, TimeValue y) \<Rightarrow> x = y
      | _ \<Rightarrow> False)"

fun addDays :: "Date \<Rightarrow> int \<Rightarrow> Date" where
  "addDays InvalidDate amount = InvalidDate"
| "addDays (TimeValue t) amount =
     (if amount = 0 then TimeClip t
      else TimeClip (setDate t (DateFromTime t + amount)))"

definition addWeeks :: "Date \<Rightarrow> int \<Rightarrow> Date" where
  "addWeeks d amount = addDays d (amount * 7)"

text \<open>
  \<^verbatim>\<open>addMonths\<close> goes to day 0 of the month after the desired one, which is the
  last day of the desired month, and keeps that day when the day of the month
  of the argument does not exist there. When that last day is beyond the range
  of the host, it is an Invalid Date, its day, month and year are \<^verbatim>\<open>NaN\<close>, the
  comparison is false and \<^verbatim>\<open>setFullYear\<close> gives an Invalid Date.
\<close>

fun addMonths :: "Date \<Rightarrow> int \<Rightarrow> Date" where
  "addMonths InvalidDate amount = InvalidDate"
| "addMonths (TimeValue t) amount =
     (if amount = 0 then TimeClip t
      else
        let dayOfMonth = DateFromTime t
        in case TimeClip (setMonth t (MonthFromTime t + amount + 1) 0) of
             InvalidDate \<Rightarrow> InvalidDate
           | TimeValue endOfDesiredMonth \<Rightarrow>
               let daysInMonth = DateFromTime endOfDesiredMonth
               in if dayOfMonth \<ge> daysInMonth then TimeValue endOfDesiredMonth
                  else TimeClip (setFullYear t (YearFromTime endOfDesiredMonth)
                                   (MonthFromTime endOfDesiredMonth) dayOfMonth))"

definition addYears :: "Date \<Rightarrow> int \<Rightarrow> Date" where
  "addYears d amount = addMonths d (amount * 12)"

text \<open>
  The time value that \<^verbatim>\<open>addMonths\<close> aims at: the same day of the month, or
  the last day of the month when it is shorter, \<open>n\<close> months later, at the same
  time of day. Lemma \<open>addMonths_cases\<close> below shows that \<open>addMonths\<close> gives
  this time value, or an Invalid Date.
\<close>

definition addMonths_target :: "int \<Rightarrow> int \<Rightarrow> int" where
  "addMonths_target t n =
     (let K = 12 * YearFromTime t + MonthFromTime t + n
      in MakeDate (MakeDay 0 K 1 + min (DateFromTime t) (DaysInMonth (K div 12) (K mod 12)) - 1)
           (TimeWithinDay t))"

subsection \<open>Date strings\<close>

definition digit_of :: "char \<Rightarrow> nat option" where
  "digit_of c = map_of (zip ''0123456789'' [0, 1, 2, 3, 4, 5, 6, 7, 8, 9]) c"

fun digits_value :: "string \<Rightarrow> nat \<Rightarrow> nat option" where
  "digits_value [] acc = Some acc"
| "digits_value (c # cs) acc =
     (case digit_of c of None \<Rightarrow> None | Some d \<Rightarrow> digits_value cs (10 * acc + d))"

definition number_of_digits :: "string \<Rightarrow> nat option" where
  "number_of_digits s = (if s = [] then None else digits_value s 0)"

text \<open>
  \<^verbatim>\<open>parseISO\<close> of the date library, on the calendar-date form \<^verbatim>\<open>YYYY-MM-DD\<close>
  that the application stores (the form field and \<^verbatim>\<open>format(d, 'yyyy-MM-dd')\<close>):
  local midnight of that day, and an invalid date for a month or a day that does
  not exist. The library reads further ISO forms (a year or a month alone, week
  and ordinal dates, a date with a time); they are taken as unparseable here.
  The general theorems on the events below are stated on the results of the
  parsers and do not unfold them.
\<close>

definition parseISO :: "string \<Rightarrow> Date" where
  "parseISO s =
     (if length s = 10 \<and> s ! 4 = CHR ''-'' \<and> s ! 7 = CHR ''-'' then
        (case (number_of_digits (take 4 s), number_of_digits (take 2 (drop 5 s)),
               number_of_digits (drop 8 s)) of
           (Some y, Some m, Some d) \<Rightarrow>
             if 1 \<le> m \<and> m \<le> 12 \<and> 1 \<le> d \<and> int d \<le> DaysInMonth (int y) (int m - 1)
             then TimeClip (MakeDate (MakeDay (int y) (int m - 1) (int d)) 0)
             else InvalidDate
         | _ \<Rightarrow> InvalidDate)
      else InvalidDate)"

text \<open>
  \<^verbatim>\<open>new Date(s)\<close> on the date-time form \<^verbatim>\<open>YYYY-MM-DDTHH:mm\<close> (local time), which
  is what \<^verbatim>\<open>`${date}T${time}`\<close> gives for a stored date and a time of the form
  field; an invalid date otherwise. This is the format of the language standard,
  read strictly: a host may also read seconds, or roll a day such as 30 February
  over into the next month.
\<close>

definition new_Date :: "string \<Rightarrow> Date" where
  "new_Date s =
     (if length s = 16 \<and> s ! 10 = CHR ''T'' \<and> s ! 13 = CHR '':'' then
        (case (parseISO (take 10 s), number_of_digits (take 2 (drop 11 s)),
               number_of_digits (drop 14 s)) of
           (TimeValue t, Some h, Some mi) \<Rightarrow>
             if (h \<le> 23 \<and> mi \<le> 59) \<or> (h = 24 \<and> mi = 0)
             then TimeClip (t + (int h * 60 + int mi) * 60000)
             else InvalidDate
         | _ \<Rightarrow> InvalidDate)
      else InvalidDate)"

section \<open>dateUtils.js\<close>

text \<open>
  \<^verbatim>\<open>parseDate\<close> returns \<^verbatim>\<open>new Date()\<close>, the current time, for a string
  that does not parse. The current time is the parameter \<open>now\<close>.
\<close>

definition parseDate :: "Date \<Rightarrow> string \<Rightarrow> Date" where
  "parseDate now dateString =
     (let parsed = parseISO dateString
      in if isValid parsed then parsed else now)"

record loop_state =
  currentDate :: Date
  iterations :: nat
  dates :: "Date list"

definition maxIterations :: nat where
  "maxIterations = 1000"

text \<open>\<^verbatim>\<open>Math.max(1, Math.min(interval || 1, 365))\<close>\<close>

definition safeInterval :: "int \<Rightarrow> int" where
  "safeInterval interval = max 1 (min (if interval = 0 then 1 else interval) 365)"

text \<open>The \<^verbatim>\<open>switch\<close> of the loop body; \<open>None\<close> is the \<^verbatim>\<open>default\<close> branch.\<close>

definition advance :: "string \<Rightarrow> Date \<Rightarrow> int \<Rightarrow> Date option" where
  "advance pattern cur k =
     (if pattern = ''daily'' then Some (addDays cur k)
      else if pattern = ''weekly'' then Some (addWeeks cur k)
      else if pattern = ''monthly'' then Some (addMonths cur k)
      else None)"

text \<open>
  The \<^verbatim>\<open>while\<close> loop. The state returned is the one at the exit of the loop, or
  at the \<^verbatim>\<open>return dates\<close> of the \<^verbatim>\<open>default\<close> branch.
\<close>

function recurring_loop :: "string \<Rightarrow> int \<Rightarrow> Date \<Rightarrow> loop_state \<Rightarrow> loop_state" where
  "recurring_loop pattern k maxDate s =
     (if date_lt (currentDate s) maxDate \<and> iterations s < maxIterations then
        (case advance pattern (currentDate s) k of
           None \<Rightarrow> s\<lparr>iterations := iterations s + 1\<rparr>
         | Some c \<Rightarrow>
             recurring_loop pattern k maxDate
               \<lparr>currentDate = c, iterations = iterations s + 1,
                dates = (if date_le c maxDate then dates s @ [startOfDay c] else dates s)\<rparr>)
      else s)"
  by pat_completeness auto
termination
  by (relation "measure (\<lambda>(pattern, k, maxDate, s). maxIterations - iterations s)") auto

text \<open>The effective horizon: \<^verbatim>\<open>endDate && isValid(endDate) ? endDate : addYears(startDate, 1)\<close>.\<close>

definition maxDate_of :: "Date \<Rightarrow> Date option \<Rightarrow> Date" where
  "maxDate_of startDate endDate =
     (case endDate of
        None \<Rightarrow> addYears startDate 1
      | Some e \<Rightarrow> if isValid e then e else addYears startDate 1)"

definition recurring_run :: "Date \<Rightarrow> string \<Rightarrow> int \<Rightarrow> Date option \<Rightarrow> loop_state" where
  "recurring_run startDate pattern interval endDate =
     recurring_loop pattern (safeInterval interval) (maxDate_of startDate endDate)
       \<lparr>currentDate = startDate, iterations = 0, dates = [startOfDay startDate]\<rparr>"

definition generateRecurringDates :: "Date \<Rightarrow> string \<Rightarrow> int \<Rightarrow> Date option \<Rightarrow> Date list" where
  "generateRecurringDates startDate pattern interval endDate =
     (if \<not> isValid startDate then []
      else dates (recurring_run startDate pattern interval endDate))"

section \<open>eventUtils.js\<close>

text \<open>An event as the form saves it. The candidate of the form has no \<^verbatim>\<open>id\<close> yet.\<close>

record event =
  event_id :: "string option"
  title :: string
  date :: string
  startTime :: string
  endTime :: string
  description :: string
  category :: string
  recurring :: bool
  recurrencePattern :: string
  recurrenceInterval :: int

text \<open>The callback of the filter in \<^verbatim>\<open>getEventsForDate\<close>.\<close>

definition occursOn :: "Date \<Rightarrow> event \<Rightarrow> Date \<Rightarrow> bool" where
  "occursOn now e d =
     (if recurring e \<and> recurrencePattern e \<noteq> ''none'' then
        (let eventStartDate = parseDate now (date e)
         in if \<not> isValid eventStartDate then False
            else
              let recurringDates =
                    generateRecurringDates eventStartDate (recurrencePattern e)
                      (if recurrenceInterval e = 0 then 1 else recurrenceInterval e) None
              in list_ex (\<lambda>recurringDate. isSameDay recurringDate d) recurringDates)
      else
        (let eventDate = parseDate now (date e)
         in isValid eventDate \<and> isSameDay eventDate d))"

definition getEventsForDate :: "Date \<Rightarrow> event list \<Rightarrow> Date \<Rightarrow> event list" where
  "getEventsForDate now events d =
     (if \<not> isValid d then [] else filter (\<lambda>e. occursOn now e d) events)"

text \<open>The callback of the filter in \<^verbatim>\<open>checkEventConflicts\<close>.\<close>

definition conflicts :: "Date \<Rightarrow> event \<Rightarrow> Date \<Rightarrow> Date \<Rightarrow> event \<Rightarrow> bool" where
  "conflicts now newEvent newStart newEnd e =
     (if event_id e = event_id newEvent then False
      else
        let eventDate = parseDate now (date e);
            newEventDate = parseDate now (date newEvent)
        in if \<not> isValid eventDate \<or> \<not> isValid newEventDate then False
           else if \<not> isSameDay eventDate newEventDate then False
           else
             let existingStart = new_Date (date e @ ''T'' @ startTime e);
                 existingEnd = new_Date (date e @ ''T'' @ endTime e)
             in if \<not> isValid existingStart \<or> \<not> isValid existingEnd then False
                else date_lt newStart existingEnd \<and> date_lt existingStart newEnd)"

definition checkEventConflicts :: "Date \<Rightarrow> event \<Rightarrow> event list \<Rightarrow> event list" where
  "checkEventConflicts now newEvent existingEvents =
     (let newStart = new_Date (date newEvent @ ''T'' @ startTime newEvent);
          newEnd = new_Date (date newEvent @ ''T'' @ endTime newEvent)
      in if \<not> isValid newStart \<or> \<not> isValid newEnd then []
         else filter (conflicts now newEvent newStart newEnd) existingEvents)"

section \<open>EventModal.jsx\<close>

text \<open>
  The form opens on \<^verbatim>\<open>initialFormData\<close>: a one-hour event without recurrence on
  the selected day, \<open>d\<close> being \<^verbatim>\<open>format(selectedDate, 'yyyy-MM-dd')\<close>. It has no
  \<^verbatim>\<open>id\<close>. The examples below are built from it.
\<close>

definition initialFormData :: "string \<Rightarrow> event" where
  "initialFormData d =
     \<lparr>event_id = None, title = [], date = d, startTime = ''09:00'', endTime = ''10:00'',
      description = [], category = ''other'', recurring = False,
      recurrencePattern = ''none'', recurrenceInterval = 1\<rparr>"

section \<open>Calendar arithmetic\<close>

subsection \<open>Years\<close>

lemma div_succ:
  fixes a k :: int
  assumes "0 < k"
  shows "(a + 1) div k = a div k + (if k dvd (a + 1) then 1 else 0)"
proof -
  have a: "a = k * (a div k) + a mod k" by simp
  have r: "0 \<le> a mod k" "a mod k < k" using assms by simp_all
  show ?thesis
  proof (cases "a mod k = k - 1")
    case True
    have "a + 1 = k * (a div k) + (a mod k + 1)" using a by linarith
    also have "\<dots> = k * (a div k + 1) + 0" using True by (simp add: algebra_simps)
    finally have e: "a + 1 = k * (a div k + 1) + 0" .
    have "(a + 1) div k = a div k + 1"
      by (rule int_div_pos_eq [OF e]) (use assms in simp_all)
    moreover have "k dvd (a + 1)"
      using e by (metis add.right_neutral dvd_triv_left)
    ultimately show ?thesis by simp
  next
    case False
    then have lt: "a mod k + 1 < k" using r by linarith
    have e: "a + 1 = k * (a div k) + (a mod k + 1)" using a by linarith
    have "(a + 1) div k = a div k"
      by (rule int_div_pos_eq [OF e]) (use r lt in simp_all)
    moreover have "(a + 1) mod k = a mod k + 1"
      by (rule int_mod_pos_eq [OF e]) (use r lt in simp_all)
    then have "\<not> k dvd (a + 1)" using r by (simp add: dvd_eq_mod_eq_0)
    ultimately show ?thesis by simp
  qed
qed

lemma dvd_shift:
  fixes y k c :: int
  shows "k dvd (y - k * c) \<longleftrightarrow> k dvd y"
  by (metis dvd_diff_commute dvd_minus_self dvd_triv_left dvd_diff dvd_add_right_iff diff_add_cancel)

lemma DayFromYear_Suc: "DayFromYear (y + 1) = DayFromYear y + DaysInYear y"
proof -
  have a: "(y + 1 - 1969) div 4 = (y - 1969) div 4 + (if 4 dvd y then 1 else 0)"
    using div_succ [of 4 "y - 1969"] dvd_shift [of 4 y 492] by (simp add: algebra_simps)
  have b: "(y + 1 - 1901) div 100 = (y - 1901) div 100 + (if 100 dvd y then 1 else 0)"
    using div_succ [of 100 "y - 1901"] dvd_shift [of 100 y 19] by (simp add: algebra_simps)
  have c: "(y + 1 - 1601) div 400 = (y - 1601) div 400 + (if 400 dvd y then 1 else 0)"
    using div_succ [of 400 "y - 1601"] dvd_shift [of 400 y 4] by (simp add: algebra_simps)
  have d1: "400 dvd y \<Longrightarrow> 100 dvd y"
    by (rule dvd_trans [of 100 400]) simp_all
  have d2: "100 dvd y \<Longrightarrow> 4 dvd y"
    by (rule dvd_trans [of 4 100]) simp_all
  show ?thesis
    unfolding DayFromYear_def DaysInYear_def a b c
    using d1 d2 by (auto simp: dvd_eq_mod_eq_0 [symmetric])
qed

lemma div_bounds:
  fixes a k :: int
  assumes "0 < k"
  shows "k * (a div k) \<le> a" "a < k * (a div k) + k"
proof -
  have a: "a = k * (a div k) + a mod k" by simp
  have r: "0 \<le> a mod k" "a mod k < k" using assms by simp_all
  show "k * (a div k) \<le> a" using a r by linarith
  show "a < k * (a div k) + k" using a r by linarith
qed

lemma DayFromYear_upper: "400 * DayFromYear y \<le> 146097 * (y - 1970) + 589"
proof -
  define q4 q100 q400 where "q4 = (y - 1969) div 4" and "q100 = (y - 1901) div 100"
    and "q400 = (y - 1601) div 400"
  have a: "400 * q4 \<le> 100 * y - 196900"
    using div_bounds(1) [of 4 "y - 1969"] by (simp add: q4_def)
  have b: "- (400 * q100) \<le> 8000 - 4 * y"
    using div_bounds(2) [of 100 "y - 1901"] by (simp add: q100_def)
  have c: "400 * q400 \<le> y - 1601"
    using div_bounds(1) [of 400 "y - 1601"] by (simp add: q400_def)
  have "400 * (365 * (y - 1970) + q4 - q100 + q400) \<le> 146097 * (y - 1970) + 589"
    using a b c by (simp add: algebra_simps)
  then show ?thesis
    by (simp add: DayFromYear_def q4_def q100_def q400_def)
qed

lemma DayFromYear_lower: "146097 * (y - 1970) - 506 \<le> 400 * DayFromYear y"
proof -
  define q4 q100 q400 where "q4 = (y - 1969) div 4" and "q100 = (y - 1901) div 100"
    and "q400 = (y - 1601) div 400"
  have a: "100 * y - 197200 \<le> 400 * q4"
    using div_bounds(2) [of 4 "y - 1969"] by (simp add: q4_def)
  have b: "7604 - 4 * y \<le> - (400 * q100)"
    using div_bounds(1) [of 100 "y - 1901"] by (simp add: q100_def)
  have c: "y - 2000 \<le> 400 * q400"
    using div_bounds(2) [of 400 "y - 1601"] by (simp add: q400_def)
  have "146097 * (y - 1970) - 506 \<le> 400 * (365 * (y - 1970) + q4 - q100 + q400)"
    using a b c by (simp add: algebra_simps)
  then show ?thesis
    by (simp add: DayFromYear_def q4_def q100_def q400_def)
qed

lemma YearFromDay_bounds:
  "DayFromYear (YearFromDay d) \<le> d \<and> d < DayFromYear (YearFromDay d + 1)"
proof -
  define q where "q = (400 * d + 506) div 146097"
  have q1: "146097 * q \<le> 400 * d + 506"
    using div_bounds(1) [of 146097 "400 * d + 506"] by (simp add: q_def)
  have q2: "400 * d + 506 < 146097 * q + 146097"
    using div_bounds(2) [of 146097 "400 * d + 506"] by (simp add: q_def)
  have "400 * DayFromYear (1970 + q - 1) \<le> 146097 * q - 145508"
    using DayFromYear_upper [of "1970 + q - 1"] by (simp add: algebra_simps)
  then have "400 * DayFromYear (1970 + q - 1) \<le> 400 * d"
    using q1 by simp
  then have lo: "DayFromYear (1970 + q - 1) \<le> d"
    by simp
  have "146097 * q + 145591 \<le> 400 * DayFromYear (1970 + q + 1)"
    using DayFromYear_lower [of "1970 + q + 1"] by (simp add: algebra_simps)
  then have "400 * d < 400 * DayFromYear (1970 + q + 1)"
    using q2 by simp
  then have hi: "d < DayFromYear (1970 + q + 1)"
    by simp
  show ?thesis
    using lo hi by (simp add: YearFromDay_def q_def [symmetric] Let_def)
qed


lemma InLeapYear_cases: "InLeapYear y = 0 \<or> InLeapYear y = 1"
  by (simp add: InLeapYear_def)

lemma DaysInYear_leap: "DaysInYear y = 365 + InLeapYear y"
  by (simp add: InLeapYear_def DaysInYear_def)

lemma leap_not_twice:
  assumes "InLeapYear y = 1"
  shows "InLeapYear (y + 1) = 0"
proof -
  have "DaysInYear y = 366"
    using assms unfolding InLeapYear_def by (simp split: if_splits)
  then have "y mod 4 = 0"
    unfolding DaysInYear_def by (simp split: if_splits)
  then have "(y + 1) mod 4 = 1"
    using mod_add_left_eq [of y 4 1] by simp
  then show ?thesis
    by (simp add: InLeapYear_def DaysInYear_def)
qed

lemma DayFromYear_mono_nat: "DayFromYear y + 365 * int n \<le> DayFromYear (y + int n)"
proof (induction n)
  case 0
  then show ?case by simp
next
  case (Suc n)
  have "DayFromYear (y + int (Suc n)) = DayFromYear (y + int n) + DaysInYear (y + int n)"
    using DayFromYear_Suc [of "y + int n"] by (simp add: algebra_simps)
  then show ?case
    using Suc InLeapYear_cases [of "y + int n"] by (auto simp: DaysInYear_leap)
qed

lemma DayFromYear_mono: "y \<le> y' \<Longrightarrow> DayFromYear y \<le> DayFromYear y'"
  using DayFromYear_mono_nat [of y "nat (y' - y)"] by simp

lemma YearFromDay_unique:
  assumes "DayFromYear y \<le> d" "d < DayFromYear (y + 1)"
  shows "YearFromDay d = y"
proof (rule ccontr)
  assume ne: "YearFromDay d \<noteq> y"
  note b = YearFromDay_bounds [of d]
  show False
  proof (cases "YearFromDay d < y")
    case True
    then have "DayFromYear (YearFromDay d + 1) \<le> DayFromYear y"
      by (intro DayFromYear_mono) simp
    with b assms show False by linarith
  next
    case False
    with ne have "DayFromYear (y + 1) \<le> DayFromYear (YearFromDay d)"
      by (intro DayFromYear_mono) simp
    with b assms show False by linarith
  qed
qed

lemma DayWithinYear_bounds:
  "0 \<le> DayWithinYear t \<and> DayWithinYear t < 365 + InLeapYear (YearFromTime t)"
  using YearFromDay_bounds [of "Day t"] DayFromYear_Suc [of "YearFromTime t"]
  by (simp add: DayWithinYear_def YearFromTime_def DaysInYear_leap)

subsection \<open>Months and days of the month\<close>

lemma month_cases:
  fixes m :: int
  assumes "0 \<le> m" "m \<le> 11"
  shows "m = 0 \<or> m = 1 \<or> m = 2 \<or> m = 3 \<or> m = 4 \<or> m = 5 \<or> m = 6 \<or> m = 7
         \<or> m = 8 \<or> m = 9 \<or> m = 10 \<or> m = 11"
  using assms by arith

lemma MonthFromDay_range: "0 \<le> MonthFromDay l d \<and> MonthFromDay l d \<le> 11"
  by (simp add: MonthFromDay_def)

lemma MonthStart_le:
  assumes "l = 0 \<or> l = 1" "0 \<le> d"
  shows "MonthStart l (MonthFromDay l d) \<le> d"
  using assms by (auto simp: MonthFromDay_def MonthStart_def)

lemma MonthStart_gt:
  assumes "l = 0 \<or> l = 1" "d < 365 + l"
  shows "d < MonthStart l (MonthFromDay l d + 1)"
  using assms by (auto simp: MonthFromDay_def MonthStart_def)

lemma MonthStart_Suc:
  assumes "0 \<le> m" "m \<le> 11"
  shows "MonthStart (InLeapYear y) (m + 1) = MonthStart (InLeapYear y) m + DaysInMonth y m"
  using month_cases [OF assms] by (elim disjE) (simp_all add: MonthStart_def DaysInMonth_def)

lemma DaysInMonth_bounds:
  "28 \<le> DaysInMonth y m \<and> DaysInMonth y m \<le> 31"
  using InLeapYear_cases [of y] by (auto simp: DaysInMonth_def)

lemma MonthFromDay_unique:
  assumes "l = 0 \<or> l = 1" "0 \<le> m" "m \<le> 11"
    and "MonthStart l m \<le> d" "d < MonthStart l (m + 1)"
  shows "MonthFromDay l d = m"
  using month_cases [OF assms(2,3)] assms(1,4,5)
  by (elim disjE) (simp_all add: MonthStart_def MonthFromDay_def)

lemma MonthFromTime_range: "0 \<le> MonthFromTime t \<and> MonthFromTime t \<le> 11"
  by (simp add: MonthFromTime_def MonthFromDay_range)

lemma DateFromTime_bounds:
  "1 \<le> DateFromTime t \<and> DateFromTime t \<le> DaysInMonth (YearFromTime t) (MonthFromTime t)"
proof -
  let ?l = "InLeapYear (YearFromTime t)"
  note l = InLeapYear_cases [of "YearFromTime t"]
  note b = DayWithinYear_bounds [of t]
  have lo: "MonthStart ?l (MonthFromTime t) \<le> DayWithinYear t"
    unfolding MonthFromTime_def using l b by (intro MonthStart_le) simp_all
  have hi: "DayWithinYear t < MonthStart ?l (MonthFromTime t + 1)"
    unfolding MonthFromTime_def using l b by (intro MonthStart_gt) simp_all
  have "MonthStart ?l (MonthFromTime t + 1) =
          MonthStart ?l (MonthFromTime t) + DaysInMonth (YearFromTime t) (MonthFromTime t)"
    using MonthFromTime_range [of t] by (intro MonthStart_Suc) simp_all
  with lo hi show ?thesis
    by (simp add: DateFromTime_def)
qed

subsection \<open>Time values and day numbers\<close>

lemma msPerDay_pos: "0 < msPerDay"
  by (simp add: msPerDay_def)

lemma TimeWithinDay_bounds: "0 \<le> TimeWithinDay t \<and> TimeWithinDay t < msPerDay"
  using msPerDay_pos by (simp add: TimeWithinDay_def)

lemma MakeDate_Day: "MakeDate (Day t) (TimeWithinDay t) = t"
  by (simp add: MakeDate_def Day_def TimeWithinDay_def)

lemma Day_MakeDate:
  assumes "0 \<le> tod" "tod < msPerDay"
  shows "Day (MakeDate d tod) = d"
  unfolding Day_def MakeDate_def
  by (rule int_div_pos_eq [of _ _ _ tod]) (use assms in \<open>simp_all add: mult.commute\<close>)

lemma TimeWithinDay_MakeDate:
  assumes "0 \<le> tod" "tod < msPerDay"
  shows "TimeWithinDay (MakeDate d tod) = tod"
  unfolding TimeWithinDay_def MakeDate_def
  by (rule int_mod_pos_eq [of _ _ d]) (use assms in \<open>simp_all add: mult.commute\<close>)

lemma setHours0_eq: "setHours0 t = Day t * msPerDay"
  by (simp add: setHours0_def MakeDate_def)

lemma setHours0_le: "setHours0 t \<le> t"
  using MakeDate_Day [of t] TimeWithinDay_bounds [of t]
  by (simp add: setHours0_eq MakeDate_def)

lemma Day_mono: "a \<le> b \<Longrightarrow> Day a \<le> Day b"
  unfolding Day_def using msPerDay_pos by (simp add: zdiv_mono1)


lemma setHours0_eq_iff: "setHours0 a = setHours0 b \<longleftrightarrow> Day a = Day b"
  using msPerDay_pos by (simp add: setHours0_eq)

subsection \<open>From a day number to year, month and day, and back\<close>

lemma MakeDay_in_year:
  assumes "0 \<le> m" "m \<le> 11"
  shows "MakeDay y m dt = DayFromYear y + MonthStart (InLeapYear y) m + dt - 1"
proof -
  have "m div 12 = 0" "m mod 12 = m"
    using assms by simp_all
  then show ?thesis
    by (simp add: MakeDay_def)
qed

lemma MakeDay_roundtrip:
  "MakeDay (YearFromTime t) (MonthFromTime t) dt = Day t - DateFromTime t + dt"
  using MonthFromTime_range [of t]
  by (simp add: MakeDay_in_year DateFromTime_def DayWithinYear_def)

lemma setDate_eq: "setDate t (DateFromTime t + n) = t + n * msPerDay"
proof -
  have "setDate t (DateFromTime t + n) = MakeDate (Day t + n) (TimeWithinDay t)"
    by (simp add: setDate_def MakeDay_roundtrip)
  also have "\<dots> = MakeDate (Day t) (TimeWithinDay t) + n * msPerDay"
    by (simp add: MakeDate_def algebra_simps)
  finally show ?thesis
    by (simp add: MakeDate_Day)
qed

lemma addDays_eq: "addDays (TimeValue t) n = TimeClip (t + n * msPerDay)"
  by (simp add: setDate_eq)

lemma civil_of_MakeDay:
  assumes m: "0 \<le> m" "m \<le> 11"
    and dt: "1 \<le> dt" "dt \<le> DaysInMonth y m"
    and t: "Day t = MakeDay y m dt"
  shows "YearFromTime t = y \<and> MonthFromTime t = m \<and> DateFromTime t = dt"
proof -
  let ?l = "InLeapYear y"
  note l = InLeapYear_cases [of y]
  have day: "Day t = DayFromYear y + MonthStart ?l m + dt - 1"
    using t m by (simp add: MakeDay_in_year)
  have nxt: "MonthStart ?l (m + 1) = MonthStart ?l m + DaysInMonth y m"
    using m by (rule MonthStart_Suc)
  have s0: "0 \<le> MonthStart ?l m"
    using month_cases [OF m] l by (elim disjE) (simp_all add: MonthStart_def)
  have s12: "MonthStart ?l (m + 1) \<le> 365 + ?l"
    using month_cases [OF m] l by (elim disjE) (simp_all add: MonthStart_def)
  have "DayFromYear y \<le> Day t"
    using day s0 dt by linarith
  moreover have "Day t < DayFromYear (y + 1)"
    using day nxt s12 dt by (simp add: DayFromYear_Suc DaysInYear_leap)
  ultimately have y: "YearFromTime t = y"
    unfolding YearFromTime_def by (rule YearFromDay_unique)
  have dwy: "DayWithinYear t = MonthStart ?l m + dt - 1"
    using day by (simp add: DayWithinYear_def y)
  have mo: "MonthFromTime t = m"
    unfolding MonthFromTime_def y dwy
    using l m
  proof (rule MonthFromDay_unique)
    show "MonthStart ?l m \<le> MonthStart ?l m + dt - 1" using dt by simp
    show "MonthStart ?l m + dt - 1 < MonthStart ?l (m + 1)" using nxt dt by simp
  qed
  show ?thesis
    using y mo dwy by (simp add: DateFromTime_def)
qed

subsection \<open>First days of months, counted through the years\<close>

lemma MakeDay_normal: "MakeDay y m dt = MakeDay 0 (12 * y + m) dt"
proof -
  have "(12 * y + m) div 12 = y + m div 12" "(12 * y + m) mod 12 = m mod 12"
    by simp_all
  then show ?thesis
    by (simp add: MakeDay_def)
qed

lemma MakeDay_day: "MakeDay y m dt = MakeDay y m 1 + dt - 1"
  by (simp add: MakeDay_def Let_def)

lemma MakeDay_split: "MakeDay 0 k dt = MakeDay (k div 12) (k mod 12) dt"
  using MakeDay_normal [of "k div 12" "k mod 12" dt] by simp

lemma MakeDay_month_Suc:
  "MakeDay 0 (k + 1) 1 = MakeDay 0 k 1 + DaysInMonth (k div 12) (k mod 12)"
proof (cases "k mod 12 = 11")
  case True
  have k: "k = 12 * (k div 12) + 11"
    using True mult_div_mod_eq [of 12 k] by simp
  have e: "k + 1 = 12 * (k div 12 + 1) + 0"
    using k by simp
  have d: "(k + 1) div 12 = k div 12 + 1"
    by (rule int_div_pos_eq [OF e]) simp_all
  have r: "(k + 1) mod 12 = 0"
    by (rule int_mod_pos_eq [OF e]) simp_all
  show ?thesis
    using InLeapYear_cases [of "k div 12"]
    by (auto simp: MakeDay_def d r True DayFromYear_Suc DaysInYear_leap MonthStart_def
        DaysInMonth_def)
next
  case False
  have b: "0 \<le> k mod 12" "k mod 12 < 12"
    by simp_all
  then have lt: "k mod 12 + 1 < 12" "k mod 12 \<le> 11"
    using False by linarith+
  have e: "k + 1 = 12 * (k div 12) + (k mod 12 + 1)"
    using mult_div_mod_eq [of 12 k] by linarith
  have d: "(k + 1) div 12 = k div 12"
    by (rule int_div_pos_eq [OF e]) (use b lt in simp_all)
  have r: "(k + 1) mod 12 = k mod 12 + 1"
    by (rule int_mod_pos_eq [OF e]) (use b lt in simp_all)
  show ?thesis
    using MonthStart_Suc [OF b(1) lt(2), of "k div 12"]
    by (simp add: MakeDay_def d r Let_def)
qed

lemma MakeDay_month_mono_nat: "MakeDay 0 k 1 + 28 * int n \<le> MakeDay 0 (k + int n) 1"
proof (induction n)
  case 0
  then show ?case by simp
next
  case (Suc n)
  have "MakeDay 0 (k + int (Suc n)) 1 =
          MakeDay 0 (k + int n) 1 + DaysInMonth ((k + int n) div 12) ((k + int n) mod 12)"
    using MakeDay_month_Suc [of "k + int n"] by (simp add: algebra_simps)
  then show ?case
    using Suc DaysInMonth_bounds [of "(k + int n) div 12" "(k + int n) mod 12"] by simp
qed

lemma MakeDay_month_mono: "k \<le> k' \<Longrightarrow> MakeDay 0 k 1 \<le> MakeDay 0 k' 1"
  using MakeDay_month_mono_nat [of k "nat (k' - k)"] by simp

subsection \<open>The range of the host's dates\<close>

lemma maxTime_days: "maxTime = 100000000 * msPerDay"
  by (simp add: maxTime_def msPerDay_def)

lemma TimeClip_cases:
  "TimeClip t = InvalidDate \<or> (TimeClip t = TimeValue t \<and> \<bar>t\<bar> \<le> maxTime)"
  by (simp add: TimeClip_def)

lemma TimeClip_valid: "\<bar>t\<bar> \<le> maxTime \<Longrightarrow> TimeClip t = TimeValue t"
  by (simp add: TimeClip_def)

lemma TimeClip_TimeValue: "TimeClip t = TimeValue u \<Longrightarrow> u = t \<and> \<bar>t\<bar> \<le> maxTime"
  by (simp add: TimeClip_def split: if_splits)

lemma setHours0_in_range:
  assumes "\<bar>t\<bar> \<le> maxTime"
  shows "\<bar>setHours0 t\<bar> \<le> maxTime"
proof -
  have up: "setHours0 t \<le> maxTime"
    using setHours0_le [of t] assms by linarith
  have "- maxTime = MakeDate (- 100000000) 0"
    by (simp add: maxTime_days MakeDate_def)
  then have "Day (- maxTime) = - 100000000"
    using msPerDay_pos by (simp add: Day_MakeDate)
  moreover have "Day (- maxTime) \<le> Day t"
    using assms by (intro Day_mono) linarith
  ultimately have "- 100000000 \<le> Day t"
    by simp
  then have "- 100000000 * msPerDay \<le> Day t * msPerDay"
    using msPerDay_pos by (intro mult_right_mono) simp_all
  then have "- maxTime \<le> setHours0 t"
    by (simp add: setHours0_eq maxTime_days)
  with up show ?thesis
    by linarith
qed

lemma startOfDay_valid:
  "\<bar>t\<bar> \<le> maxTime \<Longrightarrow> startOfDay (TimeValue t) = TimeValue (setHours0 t)"
  by (simp add: TimeClip_valid setHours0_in_range)

lemma isSameDay_invalid: "\<not> isSameDay x InvalidDate"
  by (simp add: isSameDay_def split: Date.splits)

lemma parseISO_clipped: "parseISO s = TimeValue t \<Longrightarrow> isValid (TimeValue t)"
  by (auto simp: parseISO_def TimeClip_def split: if_splits option.splits)

lemma new_Date_clipped: "new_Date s = TimeValue t \<Longrightarrow> isValid (TimeValue t)"
  by (auto simp: new_Date_def TimeClip_def split: if_splits option.splits Date.splits)

subsection \<open>What the date library computes\<close>

lemma month_index:
  fixes y m :: int
  assumes "0 \<le> m" "m \<le> 11"
  shows "(12 * y + m) div 12 = y" "(12 * y + m) mod 12 = m"
proof -
  have e: "12 * y + m = 12 * y + m" by simp
  show "(12 * y + m) div 12 = y"
    by (rule int_div_pos_eq [OF e]) (use assms in simp_all)
  show "(12 * y + m) mod 12 = m"
    by (rule int_mod_pos_eq [OF e]) (use assms in simp_all)
qed

lemma Day_as_MakeDay:
  "Day t = MakeDay 0 (12 * YearFromTime t + MonthFromTime t) 1 + DateFromTime t - 1"
  using MakeDay_roundtrip [of t "DateFromTime t"]
    MakeDay_normal [of "YearFromTime t" "MonthFromTime t" "DateFromTime t"]
    MakeDay_day [of 0 "12 * YearFromTime t + MonthFromTime t" "DateFromTime t"]
  by simp

lemma addMonths_target_0: "addMonths_target t 0 = t"
proof -
  define K where "K = 12 * YearFromTime t + MonthFromTime t"
  have K: "K div 12 = YearFromTime t" "K mod 12 = MonthFromTime t"
    using MonthFromTime_range [of t] month_index [of "MonthFromTime t" "YearFromTime t"]
    by (simp_all add: K_def)
  have "min (DateFromTime t) (DaysInMonth (K div 12) (K mod 12)) = DateFromTime t"
    using DateFromTime_bounds [of t] by (simp add: K)
  moreover have "MakeDay 0 K 1 + DateFromTime t - 1 = Day t"
    using Day_as_MakeDay [of t] by (simp add: K_def)
  ultimately show ?thesis
    by (simp add: addMonths_target_def K_def [symmetric] MakeDate_Day)
qed

text \<open>
  \<^verbatim>\<open>addMonths\<close> gives the time value \<open>addMonths_target\<close>, or an Invalid Date
  when that time value, or the last day of its month, is beyond the range.
\<close>

lemma addMonths_cases:
  "addMonths (TimeValue t) n = InvalidDate
   \<or> (addMonths (TimeValue t) n = TimeValue (addMonths_target t n)
       \<and> \<bar>addMonths_target t n\<bar> \<le> maxTime)"
proof (cases "n = 0")
  case True
  then show ?thesis
    using TimeClip_cases [of t] by (auto simp: addMonths_target_0)
next
  case False
  define K where "K = 12 * YearFromTime t + MonthFromTime t + n"
  let ?tod = "TimeWithinDay t"
  let ?dim = "DaysInMonth (K div 12) (K mod 12)"
  let ?e = "setMonth t (MonthFromTime t + n + 1) 0"
  note tod = TimeWithinDay_bounds [of t]
  have R: "addMonths_target t n
             = MakeDate (MakeDay 0 K 1 + min (DateFromTime t) ?dim - 1) ?tod"
    by (simp add: addMonths_target_def K_def Let_def)
  have "MakeDay (YearFromTime t) (MonthFromTime t + n + 1) 0 = MakeDay 0 (K + 1) 0"
    using MakeDay_normal [of "YearFromTime t" "MonthFromTime t + n + 1" 0]
    by (simp add: K_def algebra_simps)
  also have "\<dots> = MakeDay 0 (K + 1) 1 - 1"
    using MakeDay_day [of 0 "K + 1" 0] by simp
  also have "\<dots> = MakeDay 0 K 1 + ?dim - 1"
    by (simp add: MakeDay_month_Suc)
  finally have md: "MakeDay (YearFromTime t) (MonthFromTime t + n + 1) 0 = MakeDay 0 K 1 + ?dim - 1" .
  have e: "?e = MakeDate (MakeDay 0 K 1 + ?dim - 1) ?tod"
    by (simp add: setMonth_def md)
  have "Day ?e = MakeDay 0 K 1 + ?dim - 1"
    unfolding e using tod by (intro Day_MakeDate) simp_all
  also have "\<dots> = MakeDay (K div 12) (K mod 12) ?dim"
    using MakeDay_day [of 0 K ?dim] MakeDay_split [of K ?dim] by simp
  finally have de: "Day ?e = MakeDay (K div 12) (K mod 12) ?dim" .
  have civ: "YearFromTime ?e = K div 12 \<and> MonthFromTime ?e = K mod 12 \<and> DateFromTime ?e = ?dim"
    using _ _ _ _ de
  proof (rule civil_of_MakeDay)
    show "0 \<le> K mod 12" by simp
    have "K mod 12 < 12" by simp
    then show "K mod 12 \<le> 11" by linarith
    show "1 \<le> ?dim" using DaysInMonth_bounds [of "K div 12" "K mod 12"] by linarith
    show "?dim \<le> ?dim" by simp
  qed
  show ?thesis
  proof (cases "TimeClip ?e")
    case InvalidDate
    then show ?thesis
      using False by (simp add: Let_def)
  next
    case (TimeValue u)
    then have u: "u = ?e" "\<bar>?e\<bar> \<le> maxTime"
      using TimeClip_TimeValue [of ?e u] by simp_all
    show ?thesis
    proof (cases "DateFromTime t \<ge> ?dim")
      case True
      then have "min (DateFromTime t) ?dim = ?dim" by simp
      then have "addMonths_target t n = ?e"
        by (simp add: R e)
      moreover have "addMonths (TimeValue t) n = TimeValue ?e"
        using False True civ TimeValue u(1) by (simp add: Let_def)
      ultimately show ?thesis
        using u(2) by simp
    next
      case ge: False
      then have mn: "min (DateFromTime t) ?dim = DateFromTime t" by simp
      have "setFullYear t (K div 12) (K mod 12) (DateFromTime t) = addMonths_target t n"
        using MakeDay_day [of 0 K "DateFromTime t"] MakeDay_split [of K "DateFromTime t"]
        by (simp add: setFullYear_def R mn)
      then have "addMonths (TimeValue t) n = TimeClip (addMonths_target t n)"
        using False ge civ TimeValue u(1) by (simp add: Let_def)
      then show ?thesis
        using TimeClip_cases [of "addMonths_target t n"] by auto
    qed
  qed
qed

lemma MakeDate_mono:
  assumes "d + 1 \<le> d'"
  shows "MakeDate d tod + msPerDay \<le> MakeDate d' tod"
proof -
  have "(d + 1) * msPerDay \<le> d' * msPerDay"
    using assms msPerDay_pos by (intro mult_right_mono) simp_all
  then show ?thesis
    by (simp add: MakeDate_def algebra_simps)
qed

lemma addMonths_target_progress:
  assumes "1 \<le> n"
  shows "t + msPerDay \<le> addMonths_target t n"
proof -
  define K0 where "K0 = 12 * YearFromTime t + MonthFromTime t"
  define K where "K = K0 + n"
  let ?dim = "DaysInMonth (K div 12) (K mod 12)"
  let ?D = "MakeDay 0 K 1 + min (DateFromTime t) ?dim - 1"
  have eq: "addMonths_target t n = MakeDate ?D (TimeWithinDay t)"
    by (simp add: addMonths_target_def K_def K0_def Let_def)
  have K0: "K0 div 12 = YearFromTime t" "K0 mod 12 = MonthFromTime t"
    using MonthFromTime_range [of t] month_index [of "MonthFromTime t" "YearFromTime t"]
    by (simp_all add: K0_def)
  have "Day t + 1 = MakeDay 0 K0 1 + DateFromTime t"
    using Day_as_MakeDay [of t] by (simp add: K0_def)
  also have "\<dots> \<le> MakeDay 0 K0 1 + DaysInMonth (K0 div 12) (K0 mod 12)"
    using DateFromTime_bounds [of t] by (simp add: K0)
  also have "\<dots> = MakeDay 0 (K0 + 1) 1"
    by (simp add: MakeDay_month_Suc)
  also have "\<dots> \<le> MakeDay 0 K 1"
    using assms by (intro MakeDay_month_mono) (simp add: K_def)
  also have "\<dots> \<le> ?D"
    using DateFromTime_bounds [of t] DaysInMonth_bounds [of "K div 12" "K mod 12"] by simp
  finally have "Day t + 1 \<le> ?D" .
  then have "MakeDate (Day t) (TimeWithinDay t) + msPerDay \<le> MakeDate ?D (TimeWithinDay t)"
    by (rule MakeDate_mono)
  then show ?thesis
    using eq by (simp add: MakeDate_Day)
qed

lemma addMonths_progress:
  assumes "1 \<le> n"
  shows "addMonths (TimeValue t) n = InvalidDate
       \<or> (\<exists>t'. addMonths (TimeValue t) n = TimeValue t' \<and> t + msPerDay \<le> t'
                \<and> \<bar>t'\<bar> \<le> maxTime)"
  using addMonths_cases [of t n] addMonths_target_progress [OF assms, of t] by auto

lemma MonthStart_leap:
  assumes "0 \<le> m" "m \<le> 11" "l = 0 \<or> l = 1"
  shows "MonthStart 0 m \<le> MonthStart l m \<and> MonthStart l m \<le> MonthStart 0 m + l"
  using month_cases [OF assms(1,2)] assms(3)
  by (elim disjE) (simp_all add: MonthStart_def)

lemma addMonths_target_year: "addMonths_target t 12 \<le> t + 366 * msPerDay"
proof -
  let ?y = "YearFromTime t" and ?m = "MonthFromTime t" and ?d = "DateFromTime t"
  define K where "K = 12 * ?y + ?m + 12"
  let ?dim = "DaysInMonth (K div 12) (K mod 12)"
  let ?D = "MakeDay 0 K 1 + min ?d ?dim - 1"
  note m = MonthFromTime_range [of t]
  have eq: "addMonths_target t 12 = MakeDate ?D (TimeWithinDay t)"
    by (simp add: addMonths_target_def K_def Let_def)
  have "MakeDay 0 K 1 = MakeDay (?y + 1) ?m 1"
    using MakeDay_normal [of "?y + 1" ?m 1] by (simp add: K_def algebra_simps)
  also have "\<dots> = DayFromYear ?y + 365 + InLeapYear ?y + MonthStart (InLeapYear (?y + 1)) ?m"
    using m by (simp add: MakeDay_in_year DayFromYear_Suc DaysInYear_leap)
  finally have k: "MakeDay 0 K 1 =
      DayFromYear ?y + 365 + InLeapYear ?y + MonthStart (InLeapYear (?y + 1)) ?m" .
  have day: "Day t = DayFromYear ?y + MonthStart (InLeapYear ?y) ?m + ?d - 1"
    using MakeDay_roundtrip [of t ?d] m by (simp add: MakeDay_in_year)
  have leap: "InLeapYear ?y + MonthStart (InLeapYear (?y + 1)) ?m
                \<le> MonthStart (InLeapYear ?y) ?m + 1"
  proof (cases "InLeapYear ?y = 1")
    case True
    then have "InLeapYear (?y + 1) = 0" by (rule leap_not_twice)
    then show ?thesis
      using True MonthStart_leap [of ?m 1] m by simp
  next
    case False
    then have z: "InLeapYear ?y = 0" using InLeapYear_cases [of ?y] by simp
    show ?thesis
      using MonthStart_leap [of ?m "InLeapYear (?y + 1)"] m InLeapYear_cases [of "?y + 1"]
      by (auto simp: z)
  qed
  have "?D \<le> MakeDay 0 K 1 + ?d - 1"
    by simp
  also have "\<dots> \<le> Day t + 366"
    using k day leap by linarith
  finally have "?D \<le> Day t + 366" .
  then have "?D * msPerDay \<le> (Day t + 366) * msPerDay"
    using msPerDay_pos by (intro mult_right_mono) simp_all
  then have "MakeDate ?D (TimeWithinDay t) \<le> MakeDate (Day t) (TimeWithinDay t) + 366 * msPerDay"
    by (simp add: MakeDate_def algebra_simps)
  then show ?thesis
    by (simp add: eq MakeDate_Day)
qed

text \<open>One year later is later, by 366 days at most, or beyond the range.\<close>

lemma addYears_bounds:
  "addYears (TimeValue t) 1 = InvalidDate
   \<or> (\<exists>t'. addYears (TimeValue t) 1 = TimeValue t' \<and> t < t' \<and> t' \<le> t + 366 * msPerDay
            \<and> \<bar>t'\<bar> \<le> maxTime)"
proof -
  have "t < addMonths_target t 12"
    using addMonths_target_progress [of 12 t] msPerDay_pos by linarith
  then show ?thesis
    using addMonths_cases [of t 12] addMonths_target_year [of t]
    by (auto simp: addYears_def)
qed

section \<open>The recurrence loop\<close>

declare recurring_loop.simps [simp del]

declare addDays.simps(2) [simp del]

declare addMonths.simps(2) [simp del]

declare startOfDay.simps(2) [simp del]

lemma safeInterval_bounds: "1 \<le> safeInterval i \<and> safeInterval i \<le> 365"
  by (simp add: safeInterval_def)


text \<open>A step of one day or more: the cursor moves on by a day at least, or leaves the range.\<close>

lemma advance_progress:
  assumes "1 \<le> k" "advance pattern (TimeValue t) k = Some c"
  shows "c = InvalidDate \<or> (\<exists>t'. c = TimeValue t' \<and> t + msPerDay \<le> t' \<and> \<bar>t'\<bar> \<le> maxTime)"
proof -
  have days: "t + msPerDay \<le> t + j * msPerDay" if "1 \<le> j" for j
  proof -
    have "1 * msPerDay \<le> j * msPerDay"
      using that msPerDay_pos by (intro mult_right_mono) simp_all
    then show ?thesis by simp
  qed
  consider "pattern = ''daily''" | "pattern = ''weekly''" | "pattern = ''monthly''"
    using assms(2) by (auto simp: advance_def split: if_splits)
  then show ?thesis
  proof cases
    case 1
    then have "c = TimeClip (t + k * msPerDay)"
      using assms(2) by (simp add: advance_def addDays_eq)
    then show ?thesis
      using days [OF assms(1)] TimeClip_cases [of "t + k * msPerDay"] by auto
  next
    case 2
    then have "c = TimeClip (t + (k * 7) * msPerDay)"
      using assms(2) by (simp add: advance_def addWeeks_def addDays_eq)
    moreover have "1 \<le> k * 7" using assms(1) by simp
    ultimately show ?thesis
      using days [of "k * 7"] TimeClip_cases [of "t + (k * 7) * msPerDay"] by auto
  next
    case 3
    then have "c = addMonths (TimeValue t) k"
      using assms(2) by (simp add: advance_def)
    then show ?thesis using addMonths_progress [OF assms(1), of t] by auto
  qed
qed




lemma recurring_loop_exit:
  "\<not> (date_lt (currentDate s) maxDate \<and> iterations s < maxIterations) \<Longrightarrow>
     recurring_loop pattern k maxDate s = s"
  by (subst recurring_loop.simps) auto

lemma recurring_loop_default:
  "date_lt (currentDate s) maxDate \<Longrightarrow> iterations s < maxIterations \<Longrightarrow>
   advance pattern (currentDate s) k = None \<Longrightarrow>
     recurring_loop pattern k maxDate s = s\<lparr>iterations := iterations s + 1\<rparr>"
  by (subst recurring_loop.simps) simp

lemma recurring_loop_step:
  "date_lt (currentDate s) maxDate \<Longrightarrow> iterations s < maxIterations \<Longrightarrow>
   advance pattern (currentDate s) k = Some c \<Longrightarrow>
     recurring_loop pattern k maxDate s =
       recurring_loop pattern k maxDate
         \<lparr>currentDate = c, iterations = iterations s + 1,
          dates = (if date_le c maxDate then dates s @ [startOfDay c] else dates s)\<rparr>"
  by (subst recurring_loop.simps) simp





text \<open>The counter never passes the ceiling, and each round appends at most one date.\<close>

lemma recurring_loop_iterations:
  assumes "iterations s \<le> maxIterations"
  shows "iterations s \<le> iterations (recurring_loop pattern k maxDate s)
       \<and> iterations (recurring_loop pattern k maxDate s) \<le> maxIterations
       \<and> length (dates (recurring_loop pattern k maxDate s)) + iterations s
           \<le> length (dates s) + iterations (recurring_loop pattern k maxDate s)"
  using assms
proof (induction pattern k maxDate s rule: recurring_loop.induct)
  case (1 pattern k maxDate s)
  show ?case
  proof (cases "date_lt (currentDate s) maxDate \<and> iterations s < maxIterations")
    case False
    then show ?thesis using "1.prems" by (simp add: recurring_loop_exit)
  next
    case True
    show ?thesis
    proof (cases "advance pattern (currentDate s) k")
      case None
      then show ?thesis using True by (simp add: recurring_loop_default)
    next
      case (Some c)
      from "1.IH" [OF True Some] True show ?thesis
        using Some by (auto simp: recurring_loop_step)
    qed
  qed
qed

text \<open>
  When the horizon is at most 366 days after the start and every round moves the
  cursor by a day or more, the loop stops within 366 rounds. It stops with the
  cursor at the horizon or after it, or with a cursor that has left the range.
\<close>

lemma recurring_loop_one_year:
  assumes "1 \<le> k" "maxDate = TimeValue m" "m \<le> t0 + 366 * msPerDay"
    and "currentDate s = InvalidDate
         \<or> (\<exists>t. currentDate s = TimeValue t \<and> t0 + int (iterations s) * msPerDay \<le> t)"
    and "iterations s \<le> 366"
  shows "iterations (recurring_loop pattern k maxDate s) \<le> 366
       \<and> (pattern = ''daily'' \<or> pattern = ''weekly'' \<or> pattern = ''monthly''
            \<longrightarrow> currentDate (recurring_loop pattern k maxDate s) = InvalidDate
               \<or> date_le maxDate (currentDate (recurring_loop pattern k maxDate s)))"
  using assms
proof (induction pattern k maxDate s rule: recurring_loop.induct)
  case (1 pattern k maxDate s)
  show ?case
  proof (cases "date_lt (currentDate s) maxDate \<and> iterations s < maxIterations")
    case False
    then have "\<not> date_lt (currentDate s) maxDate"
      using "1.prems"(5) by (simp add: maxIterations_def)
    then have "currentDate s = InvalidDate \<or> date_le maxDate (currentDate s)"
      using "1.prems"(2) by (cases "currentDate s") simp_all
    then show ?thesis using "1.prems"(5) False by (simp add: recurring_loop_exit)
  next
    case True
    then have "currentDate s \<noteq> InvalidDate"
      by auto
    then obtain t where t: "currentDate s = TimeValue t"
        "t0 + int (iterations s) * msPerDay \<le> t"
      using "1.prems"(4) by auto
    have "t < m"
      using True t(1) "1.prems"(2) by simp
    then have "int (iterations s) * msPerDay < 366 * msPerDay"
      using "1.prems"(3) t(2) by linarith
    then have "int (iterations s) < 366"
      using msPerDay_pos by simp
    then have its: "iterations s + 1 \<le> 366"
      by linarith
    show ?thesis
    proof (cases "advance pattern (currentDate s) k")
      case None
      then have "\<not> (pattern = ''daily'' \<or> pattern = ''weekly'' \<or> pattern = ''monthly'')"
        by (auto simp: advance_def)
      then show ?thesis using True None its by (simp add: recurring_loop_default)
    next
      case (Some c)
      let ?s' = "\<lparr>currentDate = c, iterations = iterations s + 1,
          dates = (if date_le c maxDate then dates s @ [startOfDay c] else dates s)\<rparr>"
      have "iterations (recurring_loop pattern k maxDate ?s') \<le> 366
          \<and> (pattern = ''daily'' \<or> pattern = ''weekly'' \<or> pattern = ''monthly''
            \<longrightarrow> currentDate (recurring_loop pattern k maxDate ?s') = InvalidDate
               \<or> date_le maxDate (currentDate (recurring_loop pattern k maxDate ?s')))"
      proof (rule "1.IH" [OF True Some "1.prems"(1,2,3)])
        show "iterations ?s' \<le> 366" using its by simp
        show "currentDate ?s' = InvalidDate
              \<or> (\<exists>u. currentDate ?s' = TimeValue u
                     \<and> t0 + int (iterations ?s') * msPerDay \<le> u)"
        proof (cases c)
          case InvalidDate
          then show ?thesis by simp
        next
          case (TimeValue t')
          then have "t + msPerDay \<le> t'"
            using advance_progress [of k pattern t c] "1.prems"(1) Some t(1) by auto
          then show ?thesis
            using t(2) by (simp add: TimeValue algebra_simps)
        qed
      qed
      then show ?thesis
        using True Some by (simp add: recurring_loop_step)
    qed
  qed
qed

section \<open>generateRecurringDates\<close>


text \<open>The default horizon is later than the anchor, by 366 days at most, or beyond the range.\<close>

lemma maxDate_of_default:
  "maxDate_of (TimeValue t) None = InvalidDate
   \<or> (\<exists>m. maxDate_of (TimeValue t) None = TimeValue m \<and> t < m \<and> m \<le> t + 366 * msPerDay)"
  using addYears_bounds [of t] by (auto simp: maxDate_of_def)

lemma generateRecurringDates_valid:
  assumes "\<bar>t\<bar> \<le> maxTime"
  shows "generateRecurringDates (TimeValue t) pattern interval endDate =
     dates (recurring_loop pattern (safeInterval interval) (maxDate_of (TimeValue t) endDate)
       \<lparr>currentDate = TimeValue t, iterations = 0, dates = [TimeValue (setHours0 t)]\<rparr>)"
  using assms by (simp add: generateRecurringDates_def recurring_run_def startOfDay_valid)






text \<open>
  C7: an interval of 0 and every negative interval give the list of interval 1,
  and 10000 gives the list of interval 365.
\<close>

theorem C7_interval_clamping:
  "generateRecurringDates d ''daily'' 0 h = generateRecurringDates d ''daily'' 1 h
 \<and> generateRecurringDates d ''daily'' 10000 h = generateRecurringDates d ''daily'' 365 h
 \<and> (i < 0 \<longrightarrow> generateRecurringDates d ''daily'' i h = generateRecurringDates d ''daily'' 1 h)"
  by (simp add: generateRecurringDates_def recurring_run_def safeInterval_def)

theorem C7_interval_clamping_witness:
  "(- 3 :: int) < 0
 \<and> generateRecurringDates (parseISO ''2024-03-10'') ''daily'' (- 3) (Some (parseISO ''2024-03-12''))
      = generateRecurringDates (parseISO ''2024-03-10'') ''daily'' 1 (Some (parseISO ''2024-03-12''))"
  using C7_interval_clamping [of "parseISO ''2024-03-10''" "Some (parseISO ''2024-03-12'')" "- 3"]
  by simp

text \<open>
  C8: for a valid anchor and a pattern that is none of daily, weekly and monthly,
  the result is the start of the anchor's day alone.
\<close>

theorem C8_unknown_pattern:
  assumes "isValid d" "pattern \<notin> {''daily'', ''weekly'', ''monthly''}"
  shows "generateRecurringDates d pattern interval endDate = [startOfDay d]"
proof -
  obtain t where t: "d = TimeValue t" "\<bar>t\<bar> \<le> maxTime"
    using assms(1) by (cases d) simp_all
  let ?s0 = "\<lparr>currentDate = TimeValue t, iterations = 0, dates = [TimeValue (setHours0 t)]\<rparr>"
  let ?M = "maxDate_of (TimeValue t) endDate"
  have none: "advance pattern (currentDate ?s0) (safeInterval interval) = None"
    using assms(2) by (simp add: advance_def)
  have "dates (recurring_loop pattern (safeInterval interval) ?M ?s0) = [TimeValue (setHours0 t)]"
  proof (cases "date_lt (currentDate ?s0) ?M \<and> iterations ?s0 < maxIterations")
    case True
    then show ?thesis
      using none by (simp add: recurring_loop_default)
  next
    case False
    then show ?thesis
      by (simp add: recurring_loop_exit)
  qed
  then show ?thesis
    by (simp add: t generateRecurringDates_valid startOfDay_valid)
qed

theorem C8_unknown_pattern_witness:
  "isValid (parseISO ''2024-03-10'')
 \<and> ''bogus'' \<notin> {''daily'', ''weekly'', ''monthly''}
 \<and> generateRecurringDates (parseISO ''2024-03-10'') ''bogus'' 3 (Some (parseISO ''2024-03-12''))
      = [startOfDay (parseISO ''2024-03-10'')]"
proof -
  have v: "isValid (parseISO ''2024-03-10'')"
    by code_simp
  have p: "''bogus'' \<notin> {''daily'', ''weekly'', ''monthly''}"
    by simp
  show ?thesis
    using v p C8_unknown_pattern [OF v p, of 3 "Some (parseISO ''2024-03-12'')"]
    by (simp only: simp_thms)
qed

text \<open>
  C9, as the code has it. The loop is a total function (its termination is
  proved with the definition), it runs at most 1000 rounds and the list has at
  most 1001 elements. Under the default horizon the counter stays below 1000.
  For the three patterns the loop then ends with the cursor at or past the
  horizon, when the horizon and the cursor are dates of the host: near the end
  of the range either can be an Invalid Date, which ends the loop at once.
\<close>

theorem C9_iteration_ceiling:
  assumes "isValid startDate"
  shows "iterations (recurring_run startDate pattern interval endDate) \<le> 1000
       \<and> length (generateRecurringDates startDate pattern interval endDate) \<le> 1001
       \<and> iterations (recurring_run startDate pattern interval None) < 1000
       \<and> (pattern \<in> {''daily'', ''weekly'', ''monthly''} \<longrightarrow>
            isValid (maxDate_of startDate None) \<longrightarrow>
            isValid (currentDate (recurring_run startDate pattern interval None)) \<longrightarrow>
            date_le (maxDate_of startDate None)
              (currentDate (recurring_run startDate pattern interval None)))"
proof -
  obtain t where t: "startDate = TimeValue t" "\<bar>t\<bar> \<le> maxTime"
    using assms by (cases startDate) simp_all
  let ?s0 = "\<lparr>currentDate = startDate, iterations = 0, dates = [startOfDay startDate]\<rparr>"
  have a: "iterations (recurring_run startDate pattern interval endDate) \<le> maxIterations
         \<and> length (dates (recurring_run startDate pattern interval endDate))
             \<le> 1 + iterations (recurring_run startDate pattern interval endDate)"
    using recurring_loop_iterations [of ?s0 pattern "safeInterval interval"
        "maxDate_of startDate endDate"]
    by (simp add: recurring_run_def)
  have b: "iterations (recurring_run startDate pattern interval None) \<le> 366
         \<and> (pattern = ''daily'' \<or> pattern = ''weekly'' \<or> pattern = ''monthly'' \<longrightarrow>
              isValid (maxDate_of startDate None) \<longrightarrow>
              currentDate (recurring_run startDate pattern interval None) = InvalidDate
              \<or> date_le (maxDate_of startDate None)
                  (currentDate (recurring_run startDate pattern interval None)))"
  proof (cases "maxDate_of startDate None")
    case InvalidDate
    then have "recurring_run startDate pattern interval None = ?s0"
      by (simp add: recurring_run_def recurring_loop_exit)
    then show ?thesis
      using InvalidDate by simp
  next
    case (TimeValue m)
    then have m: "m \<le> t + 366 * msPerDay"
      using maxDate_of_default [of t] by (auto simp: t(1))
    have "iterations (recurring_loop pattern (safeInterval interval) (maxDate_of startDate None) ?s0)
            \<le> 366
        \<and> (pattern = ''daily'' \<or> pattern = ''weekly'' \<or> pattern = ''monthly'' \<longrightarrow>
             currentDate (recurring_loop pattern (safeInterval interval)
                 (maxDate_of startDate None) ?s0) = InvalidDate
             \<or> date_le (maxDate_of startDate None)
                 (currentDate (recurring_loop pattern (safeInterval interval)
                    (maxDate_of startDate None) ?s0)))"
    proof (rule recurring_loop_one_year [where m = m and ?t0.0 = t])
      show "1 \<le> safeInterval interval" using safeInterval_bounds [of interval] by simp
      show "maxDate_of startDate None = TimeValue m" by (rule TimeValue)
      show "m \<le> t + 366 * msPerDay" by (rule m)
    qed (simp_all add: t(1))
    then show ?thesis
      by (simp add: recurring_run_def)
  qed
  have c1: "iterations (recurring_run startDate pattern interval endDate) \<le> 1000"
    using a by (simp add: maxIterations_def)
  have c2: "length (generateRecurringDates startDate pattern interval endDate) \<le> 1001"
    using a assms by (simp add: maxIterations_def generateRecurringDates_def)
  have c3: "iterations (recurring_run startDate pattern interval None) < 1000"
    using b by simp
  have c4: "date_le (maxDate_of startDate None)
              (currentDate (recurring_run startDate pattern interval None))"
    if "pattern \<in> {''daily'', ''weekly'', ''monthly''}"
      and "isValid (maxDate_of startDate None)"
      and "isValid (currentDate (recurring_run startDate pattern interval None))"
  proof -
    have "pattern = ''daily'' \<or> pattern = ''weekly'' \<or> pattern = ''monthly''"
      using that(1) by blast
    then have "currentDate (recurring_run startDate pattern interval None) = InvalidDate
              \<or> date_le (maxDate_of startDate None)
                  (currentDate (recurring_run startDate pattern interval None))"
      using b that(2) by blast
    moreover have "currentDate (recurring_run startDate pattern interval None) \<noteq> InvalidDate"
      using that(3) by auto
    ultimately show ?thesis
      by blast
  qed
  show ?thesis
    using c1 c2 c3 c4 by blast
qed

theorem C9_iteration_ceiling_witness:
  "isValid (parseISO ''2024-01-31'')
 \<and> ''monthly'' \<in> {''daily'', ''weekly'', ''monthly''}
 \<and> isValid (maxDate_of (parseISO ''2024-01-31'') None)
 \<and> isValid (currentDate (recurring_run (parseISO ''2024-01-31'') ''monthly'' 6 None))
 \<and> iterations (recurring_run (parseISO ''2024-01-31'') ''monthly'' 6 None) = 2
 \<and> iterations (recurring_run (parseISO ''2024-01-31'') ''monthly'' 6 None) < 1000
 \<and> date_le (maxDate_of (parseISO ''2024-01-31'') None)
      (currentDate (recurring_run (parseISO ''2024-01-31'') ''monthly'' 6 None))"
proof -
  have v: "isValid (parseISO ''2024-01-31'')"
    by code_simp
  have p: "''monthly'' \<in> {''daily'', ''weekly'', ''monthly''}"
    by simp
  have h: "isValid (maxDate_of (parseISO ''2024-01-31'') None)"
    by code_simp
  have c: "isValid (currentDate (recurring_run (parseISO ''2024-01-31'') ''monthly'' 6 None))"
    by code_simp
  have n: "iterations (recurring_run (parseISO ''2024-01-31'') ''monthly'' 6 None) = 2"
    by code_simp
  show ?thesis
    using v p h c n C9_iteration_ceiling [OF v, of "''monthly''" 6 None]
    by (simp only: simp_thms)
qed

text \<open>
  C9 as the specification states it fails for the last date of the host's
  range: one year later is an Invalid Date, the loop is not entered, and it ends
  with the cursor on the anchor, which has not passed any horizon.
\<close>

theorem C9_counterexample:
  "isValid (TimeValue 8640000000000000)
 \<and> maxDate_of (TimeValue 8640000000000000) None = InvalidDate
 \<and> iterations (recurring_run (TimeValue 8640000000000000) ''daily'' 1 None) = 0
 \<and> currentDate (recurring_run (TimeValue 8640000000000000) ''daily'' 1 None)
      = TimeValue 8640000000000000
 \<and> \<not> date_le (maxDate_of (TimeValue 8640000000000000) None)
        (currentDate (recurring_run (TimeValue 8640000000000000) ''daily'' 1 None))"
  by code_simp

section \<open>getEventsForDate\<close>

text \<open>
  C1, evaluated on the code. The date of the event does not parse, so
  \<^verbatim>\<open>parseDate\<close> gives the current time, which passes the \<^verbatim>\<open>isValid\<close> check
  of the filter: asked on 2024-03-05 at 14:30 for the events of 2024-03-05, the
  filter returns the event.
\<close>

theorem C1_unparseable_date_occurs_today:
  "\<not> isValid (parseISO ''not-a-date'')
 \<and> getEventsForDate (new_Date ''2024-03-05T14:30'')
      [(initialFormData ''not-a-date'')\<lparr>event_id := Some ''e1''\<rparr>]
      (parseISO ''2024-03-05'')
    = [(initialFormData ''not-a-date'')\<lparr>event_id := Some ''e1''\<rparr>]"
  by code_simp

text \<open>
  C2, evaluated on the code. The same event list and the same query date give a
  different result one day later: the event with the unparseable date is
  returned on 2024-03-05 and not on 2024-03-06.
\<close>

theorem C2_result_depends_on_now:
  "getEventsForDate (new_Date ''2024-03-05T14:30'')
      [(initialFormData ''not-a-date'')\<lparr>event_id := Some ''e1''\<rparr>]
      (parseISO ''2024-03-05'')
    = [(initialFormData ''not-a-date'')\<lparr>event_id := Some ''e1''\<rparr>]
 \<and> getEventsForDate (new_Date ''2024-03-06T14:30'')
      [(initialFormData ''not-a-date'')\<lparr>event_id := Some ''e1''\<rparr>]
      (parseISO ''2024-03-05'')
    = []"
  by code_simp

text \<open>
  An event with \<^verbatim>\<open>recurring\<close> set and the pattern \<^verbatim>\<open>'none'\<close> takes the branch
  of the single events, so the filter treats it as the same event without the
  flag; when its date parses, it is returned exactly for the valid query dates
  on the calendar day of that date.
\<close>

lemma occursOn_recurring_none:
  assumes "recurring e" "recurrencePattern e = ''none''"
  shows "occursOn now e d = occursOn now (e\<lparr>recurring := False\<rparr>) d
       \<and> (isValid (parseISO (date e)) \<longrightarrow> isValid d \<longrightarrow>
            (e \<in> set (getEventsForDate now events d)
               \<longleftrightarrow> e \<in> set events \<and> isSameDay (parseISO (date e)) d))"
  using assms
  by (auto simp: occursOn_def getEventsForDate_def parseDate_def Let_def)

text \<open>
  C10, evaluated on the code. When the date of such an event does not parse, the
  branch of the single events takes the current time for it, as in C1: the
  event is returned for 2024-03-05 when asked on 2024-03-05, and for 2024-03-06
  when asked on 2024-03-06, so on no fixed calendar day.
\<close>

theorem C10_unparseable_date_follows_clock:
  "recurring ((initialFormData ''not-a-date'')\<lparr>event_id := Some ''e1'', recurring := True\<rparr>)
 \<and> recurrencePattern
      ((initialFormData ''not-a-date'')\<lparr>event_id := Some ''e1'', recurring := True\<rparr>) = ''none''
 \<and> \<not> isValid (parseISO ''not-a-date'')
 \<and> getEventsForDate (new_Date ''2024-03-05T14:30'')
      [(initialFormData ''not-a-date'')\<lparr>event_id := Some ''e1'', recurring := True\<rparr>]
      (parseISO ''2024-03-05'')
    = [(initialFormData ''not-a-date'')\<lparr>event_id := Some ''e1'', recurring := True\<rparr>]
 \<and> getEventsForDate (new_Date ''2024-03-06T14:30'')
      [(initialFormData ''not-a-date'')\<lparr>event_id := Some ''e1'', recurring := True\<rparr>]
      (parseISO ''2024-03-06'')
    = [(initialFormData ''not-a-date'')\<lparr>event_id := Some ''e1'', recurring := True\<rparr>]"
  by code_simp

section \<open>checkEventConflicts\<close>

lemma checkEventConflicts_member:
  "e \<in> set (checkEventConflicts now newEvent existingEvents) \<longleftrightarrow>
     e \<in> set existingEvents
     \<and> isValid (new_Date (date newEvent @ ''T'' @ startTime newEvent))
     \<and> isValid (new_Date (date newEvent @ ''T'' @ endTime newEvent))
     \<and> conflicts now newEvent (new_Date (date newEvent @ ''T'' @ startTime newEvent))
         (new_Date (date newEvent @ ''T'' @ endTime newEvent)) e"
  by (auto simp: checkEventConflicts_def Let_def)

text \<open>
  C5: an existing event with the identifier of the candidate, or whose stored
  date is another calendar day than the date of the candidate, is not in the
  result. The filter never reads the recurrence fields of an existing event, so
  this holds for recurring events as for the others.
\<close>

theorem C5_conflict_exclusion:
  "(event_id e = event_id newEvent
      \<or> (isValid (parseISO (date e)) \<and> isValid (parseISO (date newEvent))
          \<and> \<not> isSameDay (parseISO (date e)) (parseISO (date newEvent)))
    \<longrightarrow> e \<notin> set (checkEventConflicts now newEvent existingEvents))
 \<and> conflicts now newEvent newStart newEnd
      (e\<lparr>recurring := r, recurrencePattern := p, recurrenceInterval := i\<rparr>)
    = conflicts now newEvent newStart newEnd e"
  by (auto simp: checkEventConflicts_member conflicts_def parseDate_def Let_def)

theorem C5_conflict_exclusion_witness:
  "isValid (parseISO (date ((initialFormData ''2024-02-05'')
      \<lparr>event_id := Some ''b'', recurring := True, recurrencePattern := ''monthly''\<rparr>)))
 \<and> isValid (parseISO (date (initialFormData ''2024-03-05'')))
 \<and> \<not> isSameDay
       (parseISO (date ((initialFormData ''2024-02-05'')
          \<lparr>event_id := Some ''b'', recurring := True, recurrencePattern := ''monthly''\<rparr>)))
       (parseISO (date (initialFormData ''2024-03-05'')))
 \<and> occursOn (parseISO ''2024-07-01'')
      ((initialFormData ''2024-02-05'')
         \<lparr>event_id := Some ''b'', recurring := True, recurrencePattern := ''monthly''\<rparr>)
      (parseISO ''2024-03-05'')
 \<and> (initialFormData ''2024-02-05'')
      \<lparr>event_id := Some ''b'', recurring := True, recurrencePattern := ''monthly''\<rparr>
    \<notin> set (checkEventConflicts (parseISO ''2024-07-01'') (initialFormData ''2024-03-05'')
        [(initialFormData ''2024-02-05'')
           \<lparr>event_id := Some ''b'', recurring := True, recurrencePattern := ''monthly''\<rparr>])"
proof -
  let ?e = "(initialFormData ''2024-02-05'')
      \<lparr>event_id := Some ''b'', recurring := True, recurrencePattern := ''monthly''\<rparr>"
  let ?n = "initialFormData ''2024-03-05''"
  have v1: "isValid (parseISO (date ?e))"
    by code_simp
  have v2: "isValid (parseISO (date ?n))"
    by code_simp
  have d: "\<not> isSameDay (parseISO (date ?e)) (parseISO (date ?n))"
    by code_simp
  have o: "occursOn (parseISO ''2024-07-01'') ?e (parseISO ''2024-03-05'')"
    by code_simp
  show ?thesis
    using v1 v2 d o
      C5_conflict_exclusion [of ?e ?n "parseISO ''2024-07-01''" "[?e]"]
    by (simp only: simp_thms)
qed

text \<open>
  C6: for two events with different identifiers, on the same day and with times
  that parse, the existing event is in the result exactly when the candidate
  starts before it ends and ends after it starts. On 2024-03-05, 09:00 to 10:00
  does not conflict with 10:00 to 11:00, 09:00 to 10:01 does, and 09:30 to 09:45
  conflicts with 09:00 to 10:00.
\<close>

theorem C6_half_open_overlap:
  "(event_id e \<noteq> event_id newEvent
      \<and> isValid (parseISO (date e)) \<and> isValid (parseISO (date newEvent))
      \<and> isSameDay (parseISO (date e)) (parseISO (date newEvent))
      \<and> new_Date (date newEvent @ ''T'' @ startTime newEvent) = TimeValue newStart
      \<and> new_Date (date newEvent @ ''T'' @ endTime newEvent) = TimeValue newEnd
      \<and> new_Date (date e @ ''T'' @ startTime e) = TimeValue existingStart
      \<and> new_Date (date e @ ''T'' @ endTime e) = TimeValue existingEnd
    \<longrightarrow> (e \<in> set (checkEventConflicts now newEvent existingEvents)
           \<longleftrightarrow> e \<in> set existingEvents \<and> newStart < existingEnd \<and> newEnd > existingStart))
 \<and> checkEventConflicts now (initialFormData ''2024-03-05'')
      [(initialFormData ''2024-03-05'')
         \<lparr>event_id := Some ''b'', startTime := ''10:00'', endTime := ''11:00''\<rparr>]
    = []
 \<and> checkEventConflicts now ((initialFormData ''2024-03-05'')\<lparr>endTime := ''10:01''\<rparr>)
      [(initialFormData ''2024-03-05'')
         \<lparr>event_id := Some ''b'', startTime := ''10:00'', endTime := ''11:00''\<rparr>]
    = [(initialFormData ''2024-03-05'')
         \<lparr>event_id := Some ''b'', startTime := ''10:00'', endTime := ''11:00''\<rparr>]
 \<and> checkEventConflicts now
      ((initialFormData ''2024-03-05'')\<lparr>startTime := ''09:30'', endTime := ''09:45''\<rparr>)
      [(initialFormData ''2024-03-05'')\<lparr>event_id := Some ''a''\<rparr>]
    = [(initialFormData ''2024-03-05'')\<lparr>event_id := Some ''a''\<rparr>]"
proof -
  have ex1: "checkEventConflicts now (initialFormData ''2024-03-05'')
      [(initialFormData ''2024-03-05'')
         \<lparr>event_id := Some ''b'', startTime := ''10:00'', endTime := ''11:00''\<rparr>]
    = []"
    by code_simp
  have ex2: "checkEventConflicts now ((initialFormData ''2024-03-05'')\<lparr>endTime := ''10:01''\<rparr>)
      [(initialFormData ''2024-03-05'')
         \<lparr>event_id := Some ''b'', startTime := ''10:00'', endTime := ''11:00''\<rparr>]
    = [(initialFormData ''2024-03-05'')
         \<lparr>event_id := Some ''b'', startTime := ''10:00'', endTime := ''11:00''\<rparr>]"
    by code_simp
  have ex3: "checkEventConflicts now
      ((initialFormData ''2024-03-05'')\<lparr>startTime := ''09:30'', endTime := ''09:45''\<rparr>)
      [(initialFormData ''2024-03-05'')\<lparr>event_id := Some ''a''\<rparr>]
    = [(initialFormData ''2024-03-05'')\<lparr>event_id := Some ''a''\<rparr>]"
    by code_simp
  have gen: "e \<in> set (checkEventConflicts now newEvent existingEvents)
           \<longleftrightarrow> e \<in> set existingEvents \<and> newStart < existingEnd \<and> newEnd > existingStart"
    if "event_id e \<noteq> event_id newEvent"
      "isValid (parseISO (date e))" "isValid (parseISO (date newEvent))"
      "isSameDay (parseISO (date e)) (parseISO (date newEvent))"
      "new_Date (date newEvent @ ''T'' @ startTime newEvent) = TimeValue newStart"
      "new_Date (date newEvent @ ''T'' @ endTime newEvent) = TimeValue newEnd"
      "new_Date (date e @ ''T'' @ startTime e) = TimeValue existingStart"
      "new_Date (date e @ ''T'' @ endTime e) = TimeValue existingEnd"
    using that
      new_Date_clipped [of "date newEvent @ ''T'' @ startTime newEvent" newStart]
      new_Date_clipped [of "date newEvent @ ''T'' @ endTime newEvent" newEnd]
      new_Date_clipped [of "date e @ ''T'' @ startTime e" existingStart]
      new_Date_clipped [of "date e @ ''T'' @ endTime e" existingEnd]
    by (auto simp: checkEventConflicts_member conflicts_def parseDate_def Let_def)
  show ?thesis
    using gen ex1 ex2 ex3 by blast
qed

theorem C6_half_open_overlap_witness:
  "event_id ((initialFormData ''2024-03-05'')
      \<lparr>event_id := Some ''b'', startTime := ''10:00'', endTime := ''11:00''\<rparr>)
     \<noteq> event_id ((initialFormData ''2024-03-05'')\<lparr>endTime := ''10:01''\<rparr>)
 \<and> isValid (parseISO ''2024-03-05'')
 \<and> isSameDay (parseISO ''2024-03-05'') (parseISO ''2024-03-05'')
 \<and> new_Date (''2024-03-05'' @ ''T'' @ ''09:00'') = TimeValue 1709629200000
 \<and> new_Date (''2024-03-05'' @ ''T'' @ ''10:01'') = TimeValue 1709632860000
 \<and> new_Date (''2024-03-05'' @ ''T'' @ ''10:00'') = TimeValue 1709632800000
 \<and> new_Date (''2024-03-05'' @ ''T'' @ ''11:00'') = TimeValue 1709636400000
 \<and> (initialFormData ''2024-03-05'')
      \<lparr>event_id := Some ''b'', startTime := ''10:00'', endTime := ''11:00''\<rparr>
    \<in> set (checkEventConflicts (parseISO ''2024-07-01'')
        ((initialFormData ''2024-03-05'')\<lparr>endTime := ''10:01''\<rparr>)
        [(initialFormData ''2024-03-05'')
           \<lparr>event_id := Some ''b'', startTime := ''10:00'', endTime := ''11:00''\<rparr>])"
proof -
  let ?b = "(initialFormData ''2024-03-05'')
      \<lparr>event_id := Some ''b'', startTime := ''10:00'', endTime := ''11:00''\<rparr>"
  let ?n = "(initialFormData ''2024-03-05'')\<lparr>endTime := ''10:01''\<rparr>"
  have f: "date ?b = ''2024-03-05''" "date ?n = ''2024-03-05''"
    "startTime ?b = ''10:00''" "endTime ?b = ''11:00''"
    "startTime ?n = ''09:00''" "endTime ?n = ''10:01''"
    by (simp_all add: initialFormData_def)
  have i: "event_id ?b \<noteq> event_id ?n"
    by (simp add: initialFormData_def)
  have v: "isValid (parseISO ''2024-03-05'')"
    by code_simp
  have s: "isSameDay (parseISO ''2024-03-05'') (parseISO ''2024-03-05'')"
    by code_simp
  have t1: "new_Date (''2024-03-05'' @ ''T'' @ ''09:00'') = TimeValue 1709629200000"
    by code_simp
  have t2: "new_Date (''2024-03-05'' @ ''T'' @ ''10:01'') = TimeValue 1709632860000"
    by code_simp
  have t3: "new_Date (''2024-03-05'' @ ''T'' @ ''10:00'') = TimeValue 1709632800000"
    by code_simp
  have t4: "new_Date (''2024-03-05'' @ ''T'' @ ''11:00'') = TimeValue 1709636400000"
    by code_simp
  have "?b \<in> set (checkEventConflicts (parseISO ''2024-07-01'') ?n [?b])
          \<longleftrightarrow> ?b \<in> set [?b] \<and> (1709629200000 :: int) < 1709636400000
              \<and> (1709632860000 :: int) > 1709632800000"
    using C6_half_open_overlap [of ?b ?n 1709629200000 1709632860000 1709632800000
        1709636400000 "parseISO ''2024-07-01''" "[?b]"] i v s t1 t2 t3 t4
    unfolding f by blast
  then have "?b \<in> set (checkEventConflicts (parseISO ''2024-07-01'') ?n [?b])"
    by simp
  then show ?thesis
    using i v s t1 t2 t3 t4 by (simp only: simp_thms)
qed

end
